theory Spec2Isabelle
  imports Main
begin

section \<open>Data model of the withering mixin\<close>

text \<open>
  The mixin \<^verbatim>\<open>WitheringMixin\<close> of \<^verbatim>\<open>witheringMixin.js\<close> adds a generation stamp
  \<^verbatim>\<open>_lastUpdateGen\<close> to the nodes of a tree-shaped cache and evicts nodes that were not
  touched for more than \<^verbatim>\<open>tree.lifeSpan\<close> generations.

  JavaScript numbers are modelled as \<open>int\<close>, a property that may be \<^verbatim>\<open>undefined\<close> as an
  \<open>option\<close>. The owning tree is read only by the mixin, so every node carries its own
  copy of the tree object it points to (\<^verbatim>\<open>this.tree\<close>, possibly absent).
  \<^verbatim>\<open>MAX_GENERATION\<close> is the constant \<^verbatim>\<open>tree.constructor.MAX_GENERATION\<close>; its value
  is not part of this source file and is a field of the tree here.
\<close>

record tree =
  lifeSpan :: "int option"
  currGen :: int
  neighboringLinks :: bool
  MAX_GENERATION :: int

text \<open>
  An occupant of \<^verbatim>\<open>this.values\<close>: \<^verbatim>\<open>null\<close> (the empty sentinel), another falsy value
  (\<^verbatim>\<open>false\<close>, \<^verbatim>\<open>undefined\<close>), a truthy object without a \<^verbatim>\<open>wither\<close> method (carrying its
  \<^verbatim>\<open>_lastUpdateGen\<close> when that is a number), or a withering node.
\<close>

datatype slot = Null | Falsy | Plain "int option" | Child node
  and node = Node (node_tree: "tree option") (lastUpdateGen: "int option")
                  (node_values: "slot list")

datatype error = TypeError

text \<open>The value of a JavaScript expression that mixes booleans, numbers and \<^verbatim>\<open>undefined\<close>.\<close>

datatype jsval = JUndefined | JNumber int | JBoolean bool

fun truthy :: "jsval \<Rightarrow> bool" where
  "truthy JUndefined = False"
| "truthy (JNumber n) = (n \<noteq> 0)"
| "truthy (JBoolean b) = b"

text \<open>A numeric property read from an object: \<^verbatim>\<open>undefined\<close> when it is not set.\<close>

definition js_prop :: "int option \<Rightarrow> jsval" where
  "js_prop p = (case p of None \<Rightarrow> JUndefined | Some n \<Rightarrow> JNumber n)"

text \<open>
  The relational operators on numbers that may be \<^verbatim>\<open>undefined\<close>: \<^verbatim>\<open>undefined\<close> converts to
  \<^verbatim>\<open>NaN\<close>, and every comparison with \<^verbatim>\<open>NaN\<close> is false.
\<close>

definition js_gt :: "int option \<Rightarrow> int option \<Rightarrow> bool" where
  "js_gt a b = (case (a, b) of (Some x, Some y) \<Rightarrow> x > y | _ \<Rightarrow> False)"

definition js_le :: "int option \<Rightarrow> int option \<Rightarrow> bool" where
  "js_le a b = (case (a, b) of (Some x, Some y) \<Rightarrow> x \<le> y | _ \<Rightarrow> False)"

definition js_ge :: "int option \<Rightarrow> int option \<Rightarrow> bool" where
  "js_ge a b = (case (a, b) of (Some x, Some y) \<Rightarrow> x \<ge> y | _ \<Rightarrow> False)"

text \<open>Arithmetic on such numbers: an \<^verbatim>\<open>undefined\<close> operand gives \<^verbatim>\<open>NaN\<close>, written \<open>None\<close>.\<close>

definition js_sub :: "int option \<Rightarrow> int option \<Rightarrow> int option" where
  "js_sub a b = (case (a, b) of (Some x, Some y) \<Rightarrow> Some (x - y) | _ \<Rightarrow> None)"

definition js_add :: "int option \<Rightarrow> int option \<Rightarrow> int option" where
  "js_add a b = (case (a, b) of (Some x, Some y) \<Rightarrow> Some (x + y) | _ \<Rightarrow> None)"

text \<open>Assignments to \<^verbatim>\<open>this._lastUpdateGen\<close> and to the content \<^verbatim>\<open>this.values\<close>.\<close>

definition set_lastUpdateGen :: "int option \<Rightarrow> node \<Rightarrow> node" where
  "set_lastUpdateGen g this = Node (node_tree this) g (node_values this)"

definition set_values :: "slot list \<Rightarrow> node \<Rightarrow> node" where
  "set_values vs this = Node (node_tree this) (lastUpdateGen this) vs"

subsection \<open>The host node's primitives\<close>

text \<open>
  Modelled from the spec: the base class \<^verbatim>\<open>GiveTreeNode\<close> that the mixin extends is not
  part of this source file. Its getters \<^verbatim>\<open>childNum\<close> and \<^verbatim>\<open>firstChild\<close> are the number
  of child slots in \<^verbatim>\<open>values\<close> and the first of these slots (\<^verbatim>\<open>undefined\<close>, here
  \<open>None\<close>, when there is none); \<open>value_at\<close> is the read \<^verbatim>\<open>this.values[index]\<close>.
\<close>

definition childNum :: "node \<Rightarrow> nat" where
  "childNum this = length (node_values this)"

definition value_at :: "node \<Rightarrow> nat \<Rightarrow> slot option" where
  "value_at this index =
     (if index < length (node_values this) then Some (node_values this ! index) else None)"

definition firstChild :: "node \<Rightarrow> slot option" where
  "firstChild this = value_at this 0"

text \<open>
  Modelled from the spec: \<^verbatim>\<open>clear(sentinel)\<close> of the base class replaces the content of
  the node with the empty state, a single slot holding the sentinel.
\<close>

definition clear :: "slot \<Rightarrow> node \<Rightarrow> node" where
  "clear convertTo this = set_values [convertTo] this"

text \<open>
  Modelled from the spec: \<^verbatim>\<open>remove(child, shouldDetach, sentinel)\<close> of the base class
  detaches the child from the node, and the children after it shift left by one slot. The
  child object is named by the index of the slot that holds it.
\<close>

definition remove :: "nat \<Rightarrow> bool \<Rightarrow> slot \<Rightarrow> node \<Rightarrow> node" where
  "remove index shouldDetach convertTo this =
     set_values (take index (node_values this) @ drop (Suc index) (node_values this)) this"


section \<open>The age comparator\<close>

text \<open>
  \<^verbatim>\<open>_genOlderThan (generationToComp)\<close>: the chain of \<^verbatim>\<open>&&\<close> returns its first falsy
  operand (\<^verbatim>\<open>this.tree\<close>, \<^verbatim>\<open>this.tree.lifeSpan\<close>, the boolean \<^verbatim>\<open>false\<close>) or else the last
  operand, the boolean of the \<^verbatim>\<open>===\<close> test.
\<close>

definition genOlderThan :: "node \<Rightarrow> int option \<Rightarrow> jsval" where
  "genOlderThan this generationToComp =
     (case node_tree this of
        None \<Rightarrow> JUndefined
      | Some t \<Rightarrow>
          if \<not> truthy (js_prop (lifeSpan t)) then js_prop (lifeSpan t)
          else if \<not> js_gt generationToComp (lastUpdateGen this) then JBoolean False
          else JBoolean (js_le generationToComp (Some (currGen t)) =
                         js_le (lastUpdateGen this) (Some (currGen t))))"

section \<open>The eligibility rule\<close>

lemma firstChild_size: "firstChild this = Some (Child c) \<Longrightarrow> size c < size this"
  by (cases this; cases "node_values this") (auto simp: firstChild_def value_at_def)

text \<open>
  The getter \<^verbatim>\<open>_shouldWither\<close>. A first child without the mixin has no \<^verbatim>\<open>_shouldWither\<close>
  property, and \<^verbatim>\<open>undefined === false\<close> is false.
\<close>

function shouldWither :: "node \<Rightarrow> bool" where
  "shouldWither this =
     (case node_tree this of
        None \<Rightarrow> False
      | Some t \<Rightarrow>
          if \<not> truthy (js_prop (lifeSpan t)) then False
          else \<not> (case firstChild this of
                     Some (Child c) \<Rightarrow> shouldWither c = False
                   | _ \<Rightarrow> False) \<and>
               (if js_ge (Some (currGen t)) (lastUpdateGen this)
                then js_gt (js_sub (Some (currGen t)) (lastUpdateGen this)) (lifeSpan t)
                else js_gt (js_add (Some (currGen t))
                              (js_sub (Some (MAX_GENERATION t)) (lastUpdateGen this)))
                       (lifeSpan t)))"
  by pat_completeness auto
termination
  by (relation "measure size") (auto simp: firstChild_size)

declare shouldWither.simps [simp del]

section \<open>The withering sweep\<close>

text \<open>
  What \<^verbatim>\<open>value._lastUpdateGen\<close> reads from an occupant of \<^verbatim>\<open>values\<close> when the occupant is
  truthy and the property is a number.
\<close>

fun slot_lastUpdateGen :: "slot \<Rightarrow> int option" where
  "slot_lastUpdateGen Null = None"
| "slot_lastUpdateGen Falsy = None"
| "slot_lastUpdateGen (Plain g) = g"
| "slot_lastUpdateGen (Child c) = lastUpdateGen c"

text \<open>The body of the \<^verbatim>\<open>forEach\<close> callback of the skew repair.\<close>

definition repair_step :: "node \<Rightarrow> slot \<Rightarrow> node" where
  "repair_step this v =
     (case slot_lastUpdateGen v of
        None \<Rightarrow> this
      | Some g \<Rightarrow> if truthy (genOlderThan this (Some g)) then set_lastUpdateGen (Some g) this
                  else this)"

text \<open>
  The first statement of \<^verbatim>\<open>wither ()\<close>, the skew repair, for a node whose tree is \<open>t\<close>:
  \<^verbatim>\<open>forEach\<close> runs the callback on the occupants of \<^verbatim>\<open>values\<close> in order.
\<close>

definition skew_repair :: "tree \<Rightarrow> node \<Rightarrow> node" where
  "skew_repair t this =
     (if neighboringLinks t then foldl repair_step this (node_values this) else this)"

lemma node_values_repair_step [simp]: "node_values (repair_step this v) = node_values this"
  by (simp add: repair_step_def set_lastUpdateGen_def split: option.splits)

lemma node_values_foldl_repair [simp]:
  "node_values (foldl repair_step this vs) = node_values this"
  by (induction vs arbitrary: this) simp_all

lemma node_values_skew_repair [simp]: "node_values (skew_repair t this) = node_values this"
  by (simp add: skew_repair_def)

lemma size_list_drop_nth:
  "i < length vs \<Longrightarrow>
   size_list f (drop i vs) = Suc (f (vs ! i) + size_list f (drop (Suc i) vs))"
  by (simp flip: Cons_nth_drop_Suc)

lemma size_node_values: "size_list size (node_values this) < size this"
  by (cases this) simp

text \<open>
  \<^verbatim>\<open>wither ()\<close> and its \<^verbatim>\<open>for\<close> loop over the child slots, \<open>wither_for this index\<close> being
  the loop from \<open>index\<close> on. \<^verbatim>\<open>this.tree.neighboringLinks\<close> throws a \<^verbatim>\<open>TypeError\<close> on a
  node without a tree. \<^verbatim>\<open>child.wither()\<close> changes the child object in place, which is
  still the occupant of the slot afterwards; \<^verbatim>\<open>index--\<close> followed by the \<^verbatim>\<open>index++\<close> of the
  loop leaves the index where it is.
\<close>

function wither :: "node \<Rightarrow> error + bool \<times> node"
  and wither_for :: "node \<Rightarrow> nat \<Rightarrow> error + node"
where
  "wither this =
     (case node_tree this of
        None \<Rightarrow> Inl TypeError
      | Some t \<Rightarrow>
          let this1 = skew_repair t this
          in if shouldWither this1 then Inr (True, clear Null this1)
             else (case wither_for this1 0 of
                     Inl e \<Rightarrow> Inl e
                   | Inr this2 \<Rightarrow>
                       Inr (childNum this2 \<le> 1 \<and> value_at this2 0 = Some Null, this2)))"
| "wither_for this index =
     (if index < childNum this then
        (case node_values this ! index of
           Child child \<Rightarrow>
             (case wither child of
                Inl e \<Rightarrow> Inl e
              | Inr (withered, child') \<Rightarrow>
                  let this' = set_values ((node_values this)[index := Child child']) this
                  in if withered then wither_for (remove index True Null this') index
                     else wither_for this' (index + 1))
         | _ \<Rightarrow> wither_for this (index + 1))
      else Inr this)"
  by pat_completeness auto
termination
  by (relation "measure (\<lambda>x. case x of Inl this \<Rightarrow> size this
                     | Inr (this, i) \<Rightarrow> size_list size (drop i (node_values this)))")
     (auto simp: childNum_def size_list_drop_nth remove_def set_values_def size_node_values)

declare wither.simps [simp del] wither_for.simps [simp del]

section \<open>Rejuvenation hooks\<close>

text \<open>\<^verbatim>\<open>rejuvenate ()\<close>.\<close>

definition rejuvenate :: "node \<Rightarrow> node" where
  "rejuvenate this =
     (case node_tree this of
        None \<Rightarrow> this
      | Some t \<Rightarrow> if truthy (js_prop (lifeSpan t))
                  then set_lastUpdateGen (Some (currGen t)) this else this)"

text \<open>
  The configuration \<^verbatim>\<open>props\<close> of a traversal call, of which the mixin reads the truth
  value of \<^verbatim>\<open>props.doNotWither\<close>.
\<close>

record call_props =
  doNotWither :: bool

text \<open>
  \<^verbatim>\<open>traverse\<close> and \<^verbatim>\<open>getUncachedRange\<close>. The operation of the base class
  (\<^verbatim>\<open>super.traverse\<close>, \<^verbatim>\<open>super.getUncachedRange\<close>) is a parameter, absent when the base
  class has no such method. It works on the content of the node, which it may replace, and
  gives the result of the call; the stamp is a property of the mixin alone. Without a base
  operation the result is \<^verbatim>\<open>undefined\<close>, here \<open>None\<close>.
\<close>

definition traverse ::
  "(node \<Rightarrow> 'r \<times> slot list) option \<Rightarrow> node \<Rightarrow> call_props option \<Rightarrow> 'r option \<times> node" where
  "traverse super_traverse this props =
     (let (result, this1) =
            (case super_traverse of
               None \<Rightarrow> (None, this)
             | Some f \<Rightarrow> (case f this of (r, vs) \<Rightarrow> (Some r, set_values vs this)))
      in if (case props of None \<Rightarrow> True | Some p \<Rightarrow> \<not> doNotWither p)
         then (result, rejuvenate this1) else (result, this1))"

definition getUncachedRange ::
  "(node \<Rightarrow> 'r \<times> slot list) option \<Rightarrow> node \<Rightarrow> call_props option \<Rightarrow> 'r option \<times> node" where
  "getUncachedRange super_getUncachedRange this props =
     (let (result, this1) =
            (case super_getUncachedRange of
               None \<Rightarrow> (None, this)
             | Some f \<Rightarrow> (case f this of (r, vs) \<Rightarrow> (Some r, set_values vs this)))
      in if (case props of None \<Rightarrow> True | Some p \<Rightarrow> \<not> doNotWither p)
         then (result, rejuvenate this1) else (result, this1))"

section \<open>The merge hook\<close>

text \<open>
  \<^verbatim>\<open>mergeAfter (node)\<close>. \<^verbatim>\<open>super.mergeAfter\<close> is a parameter: from the receiving node and
  the incoming one it gives the truth value of its result and the new content of the
  receiving node. \<open>nodeGen\<close> is read before the base class merges, the comparator is asked
  afterwards.
\<close>

definition mergeAfter ::
  "(node \<Rightarrow> node option \<Rightarrow> bool \<times> slot list) \<Rightarrow> node \<Rightarrow> node option \<Rightarrow> bool \<times> node" where
  "mergeAfter super_mergeAfter this node =
     (let nodeGen = (case node of
                       None \<Rightarrow> lastUpdateGen this
                     | Some n \<Rightarrow> if truthy (js_prop (lastUpdateGen n)) then lastUpdateGen n
                                 else lastUpdateGen this);
          (result, vs) = super_mergeAfter this node;
          this1 = set_values vs this
      in if result then
           (if truthy (genOlderThan this1 nodeGen) then (result, set_lastUpdateGen nodeGen this1)
            else (result, this1))
         else (result, this1))"

section \<open>Construction\<close>

text \<open>
  The configuration \<^verbatim>\<open>props\<close> of the constructor, of which the mixin reads
  \<^verbatim>\<open>props._currGen\<close>.
\<close>

record ctor_props =
  props_currGen :: "int option"

text \<open>
  The constructor, after \<^verbatim>\<open>super(...arguments)\<close> has built the object with its tree
  \<open>tr\<close> and its content \<open>vs\<close>; the property \<^verbatim>\<open>_lastUpdateGen\<close> does not exist yet. Inside
  the \<^verbatim>\<open>if\<close>, \<^verbatim>\<open>props._currGen\<close> is read again without the guard \<^verbatim>\<open>props &&\<close>, which
  throws when \<^verbatim>\<open>props\<close> is absent.
\<close>

definition constructor :: "ctor_props option \<Rightarrow> tree option \<Rightarrow> slot list \<Rightarrow> error + node" where
  "constructor props tr vs =
     (let this = Node tr None vs
      in if (case props of None \<Rightarrow> False | Some p \<Rightarrow> truthy (js_prop (props_currGen p))) \<or>
            (case tr of None \<Rightarrow> False | Some t \<Rightarrow> truthy (js_prop (lifeSpan t)))
         then (case props of
                 None \<Rightarrow> Inl TypeError
               | Some p \<Rightarrow>
                   if truthy (js_prop (props_currGen p))
                   then Inr (set_lastUpdateGen (props_currGen p) this)
                   else (case tr of
                           None \<Rightarrow> Inl TypeError
                         | Some t \<Rightarrow> Inr (set_lastUpdateGen (Some (currGen t)) this)))
         else Inr this)"

section \<open>The specification's notions\<close>

text \<open>
  The three conditions of the specification: generation tracking is active, the other
  stamp is numerically greater than the own stamp, and both stamps are on the same side of
  the current generation.
\<close>

definition tracking_active :: "node \<Rightarrow> bool" where
  "tracking_active this =
     (case node_tree this of None \<Rightarrow> False
      | Some t \<Rightarrow> (case lifeSpan t of None \<Rightarrow> False | Some l \<Rightarrow> l \<noteq> 0))"

definition same_side :: "int \<Rightarrow> int \<Rightarrow> int \<Rightarrow> bool" where
  "same_side c a b = ((a \<le> c \<and> b \<le> c) \<or> (a > c \<and> b > c))"

text \<open>
  The age of a stamp as the specification computes it, and the test "too old": the age
  exceeds the life span. A node without a numeric stamp has no age and is not too old.
\<close>

definition spec_age :: "tree \<Rightarrow> int \<Rightarrow> int" where
  "spec_age t g =
     (if currGen t \<ge> g then currGen t - g else currGen t + (MAX_GENERATION t - g))"

definition too_old :: "node \<Rightarrow> bool" where
  "too_old this =
     (case (node_tree this, lastUpdateGen this) of
        (Some t, Some g) \<Rightarrow> (case lifeSpan t of None \<Rightarrow> False | Some l \<Rightarrow> spec_age t g > l)
      | _ \<Rightarrow> False)"

text \<open>
  The protection clause in the specification's words: the node has a first child, and that
  child's own \<^verbatim>\<open>shouldWither\<close> evaluates to exactly \<^verbatim>\<open>false\<close>. \<open>slot_shouldWither\<close> is
  what the property reads on a truthy occupant: \<^verbatim>\<open>undefined\<close> on an object without it.
\<close>

fun slot_truthy :: "slot \<Rightarrow> bool" where
  "slot_truthy Null = False"
| "slot_truthy Falsy = False"
| "slot_truthy (Plain g) = True"
| "slot_truthy (Child c) = True"

fun slot_shouldWither :: "slot \<Rightarrow> jsval" where
  "slot_shouldWither (Child c) = JBoolean (shouldWither c)"
| "slot_shouldWither s = JUndefined"

definition protected :: "node \<Rightarrow> bool" where
  "protected this =
     (case firstChild this of
        None \<Rightarrow> False
      | Some s \<Rightarrow> slot_truthy s \<and> slot_shouldWither s = JBoolean False)"

text \<open>A tree with the life span \<open>l\<close>, the current generation \<open>c\<close> and the modulus \<open>m\<close>.\<close>

definition tree_ex :: "int \<Rightarrow> int \<Rightarrow> int \<Rightarrow> bool \<Rightarrow> tree" where
  "tree_ex l c m nl =
     \<lparr>lifeSpan = Some l, currGen = c, neighboringLinks = nl, MAX_GENERATION = m\<rparr>"

text \<open>
  The child sweep as the specification describes its outcome: the occupants are taken in
  order; a child whose \<^verbatim>\<open>wither()\<close> returns true is dropped, a child whose \<^verbatim>\<open>wither()\<close>
  returns false stays as the call left it, any other occupant stays as it is.
\<close>

fun sweep :: "slot list \<Rightarrow> error + slot list" where
  "sweep [] = Inr []"
| "sweep (Child c # ss) =
     (case wither c of
        Inl e \<Rightarrow> Inl e
      | Inr (withered, c') \<Rightarrow>
          (case sweep ss of
             Inl e \<Rightarrow> Inl e
           | Inr r \<Rightarrow> Inr (if withered then r else Child c' # r)))"
| "sweep (s # ss) = (case sweep ss of Inl e \<Rightarrow> Inl e | Inr r \<Rightarrow> Inr (s # r))"

text \<open>A node that has a tree, as has every node below it.\<close>

fun attached :: "node \<Rightarrow> bool" where
  "attached (Node tr g vs) =
     (tr \<noteq> None \<and> (\<forall>s \<in> set vs. case s of Child c \<Rightarrow> attached c | _ \<Rightarrow> True))"

text \<open>A childless node of the example tree with the stamp \<open>g\<close>.\<close>

definition leaf_ex :: "int \<Rightarrow> node" where
  "leaf_ex g = Node (Some (tree_ex 10 20 100 False)) (Some g) []"

text \<open>
  Generation tracking is off in a subtree: every node of it has a tree, and the
  \<^verbatim>\<open>lifeSpan\<close> of that tree is absent or zero.
\<close>

fun tracking_off :: "node \<Rightarrow> bool" where
  "tracking_off (Node tr g vs) =
     ((case tr of None \<Rightarrow> False | Some t \<Rightarrow> lifeSpan t = None \<or> lifeSpan t = Some 0) \<and>
      (\<forall>s \<in> set vs. case s of Child c \<Rightarrow> tracking_off c | _ \<Rightarrow> True))"

text \<open>
  Withering by structural emptiness alone: no stamp is looked at and no content is
  cleared. A child that is left with the single slot \<^verbatim>\<open>null\<close> is dropped; the node
  reports whether it is itself left with the single slot \<^verbatim>\<open>null\<close>.
\<close>

fun prune :: "node \<Rightarrow> bool \<times> node"
  and prune_slots :: "slot list \<Rightarrow> slot list"
where
  "prune (Node tr g vs) = (let r = prune_slots vs in (r = [Null], Node tr g r))"
| "prune_slots [] = []"
| "prune_slots (Child c # ss) =
     (case prune c of
        (withered, c') \<Rightarrow> if withered then prune_slots ss else Child c' # prune_slots ss)"
| "prune_slots (s # ss) = s # prune_slots ss"

text \<open>Rewriting every stamp of a subtree with \<open>f\<close>.\<close>

fun restamp :: "(int option \<Rightarrow> int option) \<Rightarrow> node \<Rightarrow> node"
  and restamp_slot :: "(int option \<Rightarrow> int option) \<Rightarrow> slot \<Rightarrow> slot"
where
  "restamp f (Node tr g vs) = Node tr (f g) (map (restamp_slot f) vs)"
| "restamp_slot f (Child c) = Child (restamp f c)"
| "restamp_slot f (Plain g) = Plain (f g)"
| "restamp_slot f s = s"

text \<open>A tree with the life span \<open>ls\<close>, and a subtree of old nodes without life span.\<close>

definition tree_off :: "int option \<Rightarrow> tree" where
  "tree_off ls = \<lparr>lifeSpan = ls, currGen = 50, neighboringLinks = True, MAX_GENERATION = 100\<rparr>"

definition node_off :: node where
  "node_off = Node (Some (tree_off None)) (Some 0)
     [Child (Node (Some (tree_off (Some 0))) (Some 1) [Null]),
      Child (Node (Some (tree_off None)) (Some 2) [Plain (Some 40)])]"

text \<open>
  A stamp is not moved backward when its age does not grow, the age being the distance to
  the current generation in the cyclic order. A stamp that was unset has no age to lose;
  unsetting a stamp would be a move backward.
\<close>

definition not_backward :: "tree \<Rightarrow> int option \<Rightarrow> int option \<Rightarrow> bool" where
  "not_backward t old new =
     (case (old, new) of
        (None, _) \<Rightarrow> True
      | (Some a, None) \<Rightarrow> False
      | (Some a, Some b) \<Rightarrow> spec_age t b \<le> spec_age t a)"

text \<open>Generation numbers are drawn from the cyclic range from 0 up to the modulus.\<close>

definition in_cycle :: "tree \<Rightarrow> int \<Rightarrow> bool" where
  "in_cycle t g = (0 \<le> g \<and> g < MAX_GENERATION t)"

text \<open>A parent whose stamp is older than that of its child.\<close>

definition node_skewed :: node where
  "node_skewed = Node (Some (tree_ex 10 20 100 True)) (Some 12)
     [Child (Node (Some (tree_ex 10 20 100 True)) (Some 18) [])]"

text \<open>The more recent of two stamps: the one of smaller age.\<close>

definition more_recent :: "tree \<Rightarrow> int \<Rightarrow> int \<Rightarrow> int" where
  "more_recent t a b = (if spec_age t b < spec_age t a then b else a)"

text \<open>A base class whose merge succeeds and appends the content of the incoming node.\<close>

definition merge_ok :: "node \<Rightarrow> node option \<Rightarrow> bool \<times> slot list" where
  "merge_ok this node =
     (True, node_values this @ (case node of None \<Rightarrow> [] | Some n \<Rightarrow> node_values n))"

section \<open>Properties\<close>

subsection \<open>Basic facts\<close>

lemma tracking_active_set_values [simp]:
  "tracking_active (set_values vs this) = tracking_active this"
  by (simp add: tracking_active_def set_values_def)

lemma lastUpdateGen_set_values [simp]: "lastUpdateGen (set_values vs this) = lastUpdateGen this"
  by (simp add: set_values_def)

lemma node_tree_set_lastUpdateGen [simp]: "node_tree (set_lastUpdateGen g this) = node_tree this"
  by (simp add: set_lastUpdateGen_def)

lemma lastUpdateGen_set_lastUpdateGen [simp]: "lastUpdateGen (set_lastUpdateGen g this) = g"
  by (simp add: set_lastUpdateGen_def)

lemma node_tree_set_values [simp]: "node_tree (set_values vs this) = node_tree this"
  by (simp add: set_values_def)

lemma node_tree_repair_step [simp]: "node_tree (repair_step this v) = node_tree this"
  by (simp add: repair_step_def split: option.splits)

lemma genOlderThan_set_values [simp]:
  "genOlderThan (set_values vs this) g = genOlderThan this g"
  by (simp add: genOlderThan_def set_values_def split: option.splits)

lemma truthy_genOlderThan: "truthy (genOlderThan this g) = (genOlderThan this g = JBoolean True)"
  by (auto simp: genOlderThan_def split: option.splits)

lemma genOlderThan_own: "\<not> truthy (genOlderThan this (lastUpdateGen this))"
  by (auto simp: genOlderThan_def js_gt_def split: option.splits)

lemma genOlderThan_inactive: "\<not> tracking_active this \<Longrightarrow> \<not> truthy (genOlderThan this g)"
  by (auto simp: tracking_active_def genOlderThan_def js_prop_def split: option.splits)

lemma size_child: "Child c \<in> set (node_values this) \<Longrightarrow> size c < size this"
  by (cases this) (auto dest!: size_list_estimation' [where f = size and y = "size (Child c)"])

lemmas eval_simps = wither.simps wither_for.simps shouldWither.simps skew_repair_def
  repair_step_def genOlderThan_def tree_ex_def js_prop_def js_gt_def js_ge_def js_le_def
  js_sub_def js_add_def childNum_def value_at_def firstChild_def set_values_def
  set_lastUpdateGen_def clear_def remove_def

subsection \<open>The age comparator\<close>

text \<open>
  C1. For every node and every stamp value \<open>generationToComp\<close>, \<^verbatim>\<open>_genOlderThan\<close> returns
  \<^verbatim>\<open>true\<close> exactly when the tree's \<^verbatim>\<open>lifeSpan\<close> is set, \<open>generationToComp\<close> is numerically
  greater than the node's own stamp, and the two stamps are on the same side of the tree's
  current generation. With \<^verbatim>\<open>MAX_GENERATION = 100\<close>, current generation 5, own stamp 98 and
  other stamp 3 the comparator returns \<^verbatim>\<open>false\<close>.
\<close>

theorem genOlderThan_true_iff:
  "(genOlderThan this generationToComp = JBoolean True) =
     (tracking_active this \<and>
      (case (node_tree this, lastUpdateGen this, generationToComp) of
         (Some t, Some own, Some other) \<Rightarrow> other > own \<and> same_side (currGen t) other own
       | _ \<Rightarrow> False))
   \<and> genOlderThan
        (Node (Some \<lparr>lifeSpan = ls, currGen = 5, neighboringLinks = nl,
                     MAX_GENERATION = 100\<rparr>) (Some 98) vs) (Some 3) =
       (if truthy (js_prop ls) then JBoolean False else js_prop ls)"
  by (auto simp: genOlderThan_def tracking_active_def same_side_def js_gt_def js_le_def
      js_prop_def split: option.splits)

subsection \<open>The eligibility rule\<close>

lemma protected_iff:
  "protected this = (\<exists>c. firstChild this = Some (Child c) \<and> \<not> shouldWither c)"
proof (cases "firstChild this")
  case None
  then show ?thesis by (simp add: protected_def)
next
  case (Some s)
  then show ?thesis by (cases s) (auto simp: protected_def)
qed

lemma shouldWither_eq:
  "tracking_active this \<Longrightarrow> shouldWither this = (\<not> protected this \<and> too_old this)"
  by (subst shouldWither.simps)
     (auto simp: tracking_active_def protected_iff too_old_def spec_age_def js_prop_def
        js_ge_def js_gt_def js_sub_def js_add_def split: option.splits slot.splits)

lemma shouldWither_inactive: "\<not> tracking_active this \<Longrightarrow> \<not> shouldWither this"
  by (subst shouldWither.simps)
     (auto simp: tracking_active_def js_prop_def split: option.splits)

text \<open>
  C2. For a node with generation tracking active and no first-child protection,
  \<^verbatim>\<open>_shouldWither\<close> holds exactly when the age of the stamp exceeds the life span, the age
  being \<open>currGen - stamp\<close> when \<open>currGen \<ge> stamp\<close> and \<open>currGen + (MAX_GENERATION - stamp)\<close>
  otherwise. With life span 10 and current generation 20 a stamp of 9 has age 11 and the
  node is eligible, a stamp of 10 has age 10 and the node is not; with modulus 100, current
  generation 2, stamp 95 and life span 10 the age is 7 and the node is not eligible.
\<close>

theorem shouldWither_age:
  "(node_tree this = Some t \<and> lifeSpan t = Some l \<and> l \<noteq> 0 \<and> \<not> protected this \<longrightarrow>
      shouldWither this =
        (case lastUpdateGen this of None \<Rightarrow> False | Some g \<Rightarrow> spec_age t g > l))
   \<and> spec_age (tree_ex 10 20 m nl) 9 = 11
   \<and> shouldWither (Node (Some (tree_ex 10 20 m nl)) (Some 9) []) = True
   \<and> spec_age (tree_ex 10 20 m nl) 10 = 10
   \<and> shouldWither (Node (Some (tree_ex 10 20 m nl)) (Some 10) []) = False
   \<and> spec_age (tree_ex 10 2 100 nl) 95 = 7
   \<and> shouldWither (Node (Some (tree_ex 10 2 100 nl)) (Some 95) []) = False"
  by (intro conjI impI)
     (simp_all add: shouldWither_eq tracking_active_def too_old_def spec_age_def tree_ex_def
        protected_def firstChild_def value_at_def split: option.splits)

theorem shouldWither_age_witness:
  "node_tree (Node (Some (tree_ex 10 20 100 False)) (Some 9) [Null]) =
     Some (tree_ex 10 20 100 False)
   \<and> lifeSpan (tree_ex 10 20 100 False) = Some 10 \<and> (10::int) \<noteq> 0
   \<and> \<not> protected (Node (Some (tree_ex 10 20 100 False)) (Some 9) [Null])
   \<and> shouldWither (Node (Some (tree_ex 10 20 100 False)) (Some 9) [Null]) =
       (spec_age (tree_ex 10 20 100 False) 9 > 10)"
  using shouldWither_age [where this = "Node (Some (tree_ex 10 20 100 False)) (Some 9) [Null]"
      and t = "tree_ex 10 20 100 False" and l = 10]
  by (simp add: protected_def firstChild_def value_at_def tree_ex_def)

text \<open>
  C3. For a node with generation tracking active: when the node has a first child whose
  own \<^verbatim>\<open>_shouldWither\<close> is exactly \<^verbatim>\<open>false\<close>, the node is not eligible, whatever its age.
  When the first child is absent or empty, has no \<^verbatim>\<open>_shouldWither\<close>, or is itself
  eligible, the protection does not apply and the age test alone decides.
\<close>

theorem shouldWither_protection:
  "tracking_active this \<Longrightarrow>
     (protected this \<longrightarrow> \<not> shouldWither this) \<and>
     (\<not> protected this \<longrightarrow> shouldWither this = too_old this) \<and>
     (protected this = (\<exists>c. firstChild this = Some (Child c) \<and> shouldWither c = False)) \<and>
     (firstChild this \<in> {None, Some Null, Some Falsy} \<longrightarrow> \<not> protected this) \<and>
     (\<forall>g. firstChild this = Some (Plain g) \<longrightarrow> \<not> protected this) \<and>
     (\<forall>c. firstChild this = Some (Child c) \<and> shouldWither c \<longrightarrow> \<not> protected this)"
  by (auto simp: shouldWither_eq protected_iff)

theorem shouldWither_protection_witness:
  "tracking_active (Node (Some (tree_ex 10 20 100 False)) (Some 0)
        [Child (Node (Some (tree_ex 10 20 100 False)) (Some 20) [])])
   \<and> protected (Node (Some (tree_ex 10 20 100 False)) (Some 0)
        [Child (Node (Some (tree_ex 10 20 100 False)) (Some 20) [])])
   \<and> too_old (Node (Some (tree_ex 10 20 100 False)) (Some 0)
        [Child (Node (Some (tree_ex 10 20 100 False)) (Some 20) [])])
   \<and> \<not> shouldWither (Node (Some (tree_ex 10 20 100 False)) (Some 0)
        [Child (Node (Some (tree_ex 10 20 100 False)) (Some 20) [])])
   \<and> tracking_active (Node (Some (tree_ex 10 20 100 False)) (Some 0) [])
   \<and> \<not> protected (Node (Some (tree_ex 10 20 100 False)) (Some 0) [])
   \<and> shouldWither (Node (Some (tree_ex 10 20 100 False)) (Some 0) [])"
  using shouldWither_protection [where this = "Node (Some (tree_ex 10 20 100 False)) (Some 0)
        [Child (Node (Some (tree_ex 10 20 100 False)) (Some 20) [])]"]
    shouldWither_protection [where this = "Node (Some (tree_ex 10 20 100 False)) (Some 0) []"]
  by (simp add: tracking_active_def tree_ex_def protected_def firstChild_def value_at_def
      too_old_def spec_age_def shouldWither.simps js_prop_def js_ge_def js_gt_def js_sub_def)

subsection \<open>The withering sweep\<close>

lemma wither_for_sweep_gen:
  "wither_for (Node tr g (done @ ss)) (length done) =
     (case sweep ss of Inl e \<Rightarrow> Inl e | Inr r \<Rightarrow> Inr (Node tr g (done @ r)))"
proof (induction ss arbitrary: "done")
  case Nil
  show ?case by (subst wither_for.simps) (simp add: childNum_def)
next
  case (Cons s ss)
  have step: "wither_for (Node tr g ((done @ [s']) @ ss)) (Suc (length done)) =
     (case sweep ss of Inl e \<Rightarrow> Inl e | Inr r \<Rightarrow> Inr (Node tr g ((done @ [s']) @ r)))" for s'
    using Cons.IH [of "done @ [s']"] by simp
  show ?case
  proof (cases s)
    case (Child c)
    show ?thesis
    proof (cases "wither c")
      case (Inl e)
      then show ?thesis using Child
        by (subst wither_for.simps) (simp add: childNum_def)
    next
      case (Inr p)
      obtain withered c' where p: "p = (withered, c')" by (cases p)
      show ?thesis
      proof (cases withered)
        case True
        then show ?thesis using Child Inr p Cons.IH [of "done"]
          by (subst wither_for.simps)
             (simp add: childNum_def set_values_def remove_def split: sum.splits)
      next
        case False
        then show ?thesis using Child Inr p step [of "Child c'"]
          by (subst wither_for.simps)
             (simp add: childNum_def set_values_def split: sum.splits)
      qed
    qed
  next
    case Null
    then show ?thesis using step [of s]
      by (subst wither_for.simps) (simp add: childNum_def split: sum.splits)
  next
    case Falsy
    then show ?thesis using step [of s]
      by (subst wither_for.simps) (simp add: childNum_def split: sum.splits)
  next
    case (Plain x)
    then show ?thesis using step [of s]
      by (subst wither_for.simps) (simp add: childNum_def split: sum.splits)
  qed
qed

lemma wither_for_sweep:
  "wither_for this index =
     (case sweep (drop index (node_values this)) of
        Inl e \<Rightarrow> Inl e
      | Inr r \<Rightarrow> Inr (set_values (take index (node_values this) @ r) this))"
proof (cases "index \<le> length (node_values this)")
  case True
  then have "length (take index (node_values this)) = index" by simp
  then show ?thesis
    using wither_for_sweep_gen [of "node_tree this" "lastUpdateGen this"
        "take index (node_values this)" "drop index (node_values this)"]
    by (simp add: set_values_def split: sum.splits)
next
  case False
  then show ?thesis
    by (subst wither_for.simps) (simp add: childNum_def set_values_def)
qed

lemma sweep_total:
  "(\<And>c. Child c \<in> set ss \<Longrightarrow> \<exists>p. wither c = Inr p) \<Longrightarrow> \<exists>r. sweep ss = Inr r"
  by (induction ss rule: sweep.induct) (fastforce split: sum.splits prod.splits)+

lemma collapse_iff:
  "(childNum this \<le> 1 \<and> value_at this 0 = Some Null) = (node_values this = [Null])"
  by (cases "node_values this") (auto simp: childNum_def value_at_def)

lemma wither_unfold:
  assumes "node_tree this = Some t"
  shows "wither this =
     (if shouldWither (skew_repair t this) then Inr (True, clear Null (skew_repair t this))
      else (case sweep (node_values this) of
              Inl e \<Rightarrow> Inl e
            | Inr r \<Rightarrow> Inr (r = [Null], set_values r (skew_repair t this))))"
proof -
  let ?this1 = "skew_repair t this"
  have loop: "wither_for ?this1 0 =
      (case sweep (node_values this) of Inl e \<Rightarrow> Inl e | Inr r \<Rightarrow> Inr (set_values r ?this1))"
    by (simp add: wither_for_sweep split: sum.splits)
  have collapse: "(childNum (set_values r ?this1) \<le> 1 \<and>
      value_at (set_values r ?this1) 0 = Some Null) = (r = [Null])" for r
    using collapse_iff [of "set_values r ?this1"] by (simp add: set_values_def)
  show ?thesis
    using assms
    by (subst wither.simps)
       (simp add: Let_def loop collapse [unfolded One_nat_def] split: sum.splits)
qed

lemma wither_total: "attached this \<Longrightarrow> \<exists>p. wither this = Inr p"
proof (induction "size this" arbitrary: this rule: less_induct)
  case less
  obtain tr g vs where node: "this = Node tr g vs" by (cases this)
  with less.prems obtain t where t: "tr = Some t" by auto
  have "\<exists>p. wither c = Inr p" if "Child c \<in> set vs" for c
  proof -
    have "size c < size this" using that node size_child [of c this] by simp
    moreover have "attached c" using that less.prems node by fastforce
    ultimately show ?thesis using less.hyps by blast
  qed
  then obtain r where "sweep vs = Inr r" using sweep_total by blast
  then show ?case using node t
    by (auto simp: wither_unfold)
qed

text \<open>
  C4 (amended). For a node with a tree, \<^verbatim>\<open>wither()\<close> returns true in exactly two cases:
  (a) the eligibility rule holds at the self-eviction check, that is on the node as the
  skew repair leaves it (the node on entry when \<^verbatim>\<open>neighboringLinks\<close> is off), and then
  the node is cleared with \<^verbatim>\<open>clear(null)\<close> and no child is visited; or (b) after the child
  sweep \<^verbatim>\<open>childNum <= 1\<close> and \<^verbatim>\<open>values[0] === null\<close>. In every other case it returns
  false; it does return when every node below has a tree as well.
\<close>

theorem wither_returns:
  "node_tree this = Some t \<Longrightarrow>
     (\<forall>this'. (wither this = Inr (True, this')) =
        (shouldWither (skew_repair t this) \<and> this' = clear Null (skew_repair t this) \<or>
         \<not> shouldWither (skew_repair t this) \<and>
           wither_for (skew_repair t this) 0 = Inr this' \<and>
           childNum this' \<le> 1 \<and> value_at this' 0 = Some Null)) \<and>
     (\<forall>this'. (wither this = Inr (False, this')) =
        (\<not> shouldWither (skew_repair t this) \<and>
           wither_for (skew_repair t this) 0 = Inr this' \<and>
           \<not> (childNum this' \<le> 1 \<and> value_at this' 0 = Some Null))) \<and>
     (attached this \<longrightarrow> (\<exists>b this'. wither this = Inr (b, this'))) \<and>
     (\<not> neighboringLinks t \<longrightarrow> skew_repair t this = this)"
proof (intro conjI allI impI)
  fix this'
  assume t: "node_tree this = Some t"
  show "(wither this = Inr (True, this')) =
        (shouldWither (skew_repair t this) \<and> this' = clear Null (skew_repair t this) \<or>
         \<not> shouldWither (skew_repair t this) \<and>
           wither_for (skew_repair t this) 0 = Inr this' \<and>
           childNum this' \<le> 1 \<and> value_at this' 0 = Some Null)"
    using t by (subst wither.simps) (auto simp: Let_def split: sum.splits)
  show "(wither this = Inr (False, this')) =
        (\<not> shouldWither (skew_repair t this) \<and>
           wither_for (skew_repair t this) 0 = Inr this' \<and>
           \<not> (childNum this' \<le> 1 \<and> value_at this' 0 = Some Null))"
    using t by (subst wither.simps) (auto simp: Let_def split: sum.splits)
next
  assume "attached this"
  then show "\<exists>b this'. wither this = Inr (b, this')"
    using wither_total [of this] by auto
next
  assume "\<not> neighboringLinks t"
  then show "skew_repair t this = this" by (simp add: skew_repair_def)
qed

theorem wither_returns_witness:
  "node_tree (Node (Some (tree_ex 10 20 100 True)) (Some 0) [Null]) =
     Some (tree_ex 10 20 100 True) \<and>
   attached (Node (Some (tree_ex 10 20 100 True)) (Some 0) [Null]) \<and>
   shouldWither (skew_repair (tree_ex 10 20 100 True)
     (Node (Some (tree_ex 10 20 100 True)) (Some 0) [Null])) \<and>
   wither (Node (Some (tree_ex 10 20 100 True)) (Some 0) [Null]) =
     Inr (True, clear Null (skew_repair (tree_ex 10 20 100 True)
       (Node (Some (tree_ex 10 20 100 True)) (Some 0) [Null])))"
  using wither_returns [where this = "Node (Some (tree_ex 10 20 100 True)) (Some 0) [Null]"
      and t = "tree_ex 10 20 100 True"]
  by (simp add: eval_simps)

text \<open>
  The claim C4 as stated, with the eligibility rule "on entry", fails on a node with
  \<^verbatim>\<open>neighboringLinks\<close>: the rule holds on entry, the skew repair adopts the stamp of the
  second child, and \<^verbatim>\<open>wither()\<close> returns false without clearing anything.
\<close>

theorem wither_entry_counterexample:
  "shouldWither (Node (Some (tree_ex 10 20 100 True)) (Some 0)
       [Null, Child (Node (Some (tree_ex 10 20 100 True)) (Some 20) [])]) \<and>
   wither (Node (Some (tree_ex 10 20 100 True)) (Some 0)
       [Null, Child (Node (Some (tree_ex 10 20 100 True)) (Some 20) [])]) =
     Inr (False, Node (Some (tree_ex 10 20 100 True)) (Some 20)
       [Null, Child (Node (Some (tree_ex 10 20 100 True)) (Some 20) [])])"
  by (simp add: eval_simps)

lemma sweep_no_child: "(\<And>c. Child c \<notin> set ss) \<Longrightarrow> sweep ss = Inr ss"
proof (induction ss)
  case Nil
  show ?case by simp
next
  case (Cons s ss)
  then show ?case by (cases s) auto
qed

text \<open>
  C5. The child sweep of \<^verbatim>\<open>wither()\<close> visits the child slots in index order. An occupant
  without a \<^verbatim>\<open>wither\<close> method, or an empty slot, is left untouched and the index advances.
  When the \<^verbatim>\<open>wither()\<close> of a child returns true, the child is detached with
  \<^verbatim>\<open>remove(child, true, null)\<close> and the same index is examined again; when it returns
  false the index advances. The loop from any index therefore leaves the slots before the
  index alone and sweeps the rest. With three children of which those at the indices 0 and
  1 wither and the third survives, only the third remains, at index 0.
\<close>

theorem wither_for_sweeps:
  "(\<not> index < childNum this \<longrightarrow> wither_for this index = Inr this) \<and>
   (index < childNum this \<and> (\<forall>c. node_values this ! index \<noteq> Child c) \<longrightarrow>
      wither_for this index = wither_for this (index + 1)) \<and>
   (\<forall>c c'. index < childNum this \<and> node_values this ! index = Child c \<and>
        wither c = Inr (True, c') \<longrightarrow>
      wither_for this index =
        wither_for (remove index True Null
                      (set_values ((node_values this)[index := Child c']) this)) index) \<and>
   (\<forall>c c'. index < childNum this \<and> node_values this ! index = Child c \<and>
        wither c = Inr (False, c') \<longrightarrow>
      wither_for this index =
        wither_for (set_values ((node_values this)[index := Child c']) this) (index + 1)) \<and>
   wither_for this index =
     (case sweep (drop index (node_values this)) of
        Inl e \<Rightarrow> Inl e
      | Inr r \<Rightarrow> Inr (set_values (take index (node_values this) @ r) this)) \<and>
   ((\<forall>c. Child c \<notin> set ss) \<longrightarrow> sweep ss = Inr ss) \<and>
   (\<forall>c0' c1' c2'. wither c0 = Inr (True, c0') \<and> wither c1 = Inr (True, c1') \<and>
        wither c2 = Inr (False, c2') \<longrightarrow>
      wither_for (Node tr g [Child c0, Child c1, Child c2]) 0 = Inr (Node tr g [Child c2']))"
proof (intro conjI allI impI)
  show "wither_for this index = Inr this" if "\<not> index < childNum this"
    using that by (subst wither_for.simps) simp
  show "wither_for this index = wither_for this (index + 1)"
    if "index < childNum this \<and> (\<forall>c. node_values this ! index \<noteq> Child c)"
    using that by (subst wither_for.simps) (simp split: slot.splits)
  show "wither_for this index =
        wither_for (remove index True Null
                      (set_values ((node_values this)[index := Child c']) this)) index"
    if "index < childNum this \<and> node_values this ! index = Child c \<and>
        wither c = Inr (True, c')" for c c'
    using that by (subst wither_for.simps) simp
  show "wither_for this index =
        wither_for (set_values ((node_values this)[index := Child c']) this) (index + 1)"
    if "index < childNum this \<and> node_values this ! index = Child c \<and>
        wither c = Inr (False, c')" for c c'
    using that by (subst wither_for.simps) simp
  show "wither_for this index =
     (case sweep (drop index (node_values this)) of
        Inl e \<Rightarrow> Inl e
      | Inr r \<Rightarrow> Inr (set_values (take index (node_values this) @ r) this))"
    by (rule wither_for_sweep)
  show "sweep ss = Inr ss" if "\<forall>c. Child c \<notin> set ss"
    using that by (simp add: sweep_no_child)
  show "wither_for (Node tr g [Child c0, Child c1, Child c2]) 0 = Inr (Node tr g [Child c2'])"
    if "wither c0 = Inr (True, c0') \<and> wither c1 = Inr (True, c1') \<and>
        wither c2 = Inr (False, c2')" for c0' c1' c2'
    using that by (simp add: wither_for_sweep set_values_def)
qed

theorem wither_for_sweeps_witness:
  "wither (leaf_ex 0) = Inr (True, Node (Some (tree_ex 10 20 100 False)) (Some 0) [Null]) \<and>
   wither (leaf_ex 1) = Inr (True, Node (Some (tree_ex 10 20 100 False)) (Some 1) [Null]) \<and>
   wither (leaf_ex 15) = Inr (False, leaf_ex 15) \<and>
   wither_for (Node (Some (tree_ex 10 20 100 False)) (Some 20)
       [Child (leaf_ex 0), Child (leaf_ex 1), Child (leaf_ex 15)]) 0 =
     Inr (Node (Some (tree_ex 10 20 100 False)) (Some 20) [Child (leaf_ex 15)]) \<and>
   wither (Node (Some (tree_ex 10 20 100 False)) (Some 20)
       [Child (leaf_ex 0), Child (leaf_ex 1), Child (leaf_ex 15)]) =
     Inr (False, Node (Some (tree_ex 10 20 100 False)) (Some 20) [Child (leaf_ex 15)])"
proof -
  have w0: "wither (leaf_ex 0) =
      Inr (True, Node (Some (tree_ex 10 20 100 False)) (Some 0) [Null])"
    by (simp add: leaf_ex_def eval_simps)
  have w1: "wither (leaf_ex 1) =
      Inr (True, Node (Some (tree_ex 10 20 100 False)) (Some 1) [Null])"
    by (simp add: leaf_ex_def eval_simps)
  have w2: "wither (leaf_ex 15) = Inr (False, leaf_ex 15)"
    by (simp add: leaf_ex_def eval_simps)
  have loop: "wither_for (Node (Some (tree_ex 10 20 100 False)) (Some 20)
       [Child (leaf_ex 0), Child (leaf_ex 1), Child (leaf_ex 15)]) 0 =
     Inr (Node (Some (tree_ex 10 20 100 False)) (Some 20) [Child (leaf_ex 15)])"
    using wither_for_sweeps [where ?c0.0 = "leaf_ex 0" and ?c1.0 = "leaf_ex 1"
        and ?c2.0 = "leaf_ex 15" and tr = "Some (tree_ex 10 20 100 False)" and g = "Some 20"
        and index = 0 and this = "leaf_ex 15" and ss = "[]"]
      w0 w1 w2 by simp
  have repair: "skew_repair (tree_ex 10 20 100 False)
       (Node (Some (tree_ex 10 20 100 False)) (Some 20)
          [Child (leaf_ex 0), Child (leaf_ex 1), Child (leaf_ex 15)]) =
     Node (Some (tree_ex 10 20 100 False)) (Some 20)
          [Child (leaf_ex 0), Child (leaf_ex 1), Child (leaf_ex 15)]"
    by (simp add: skew_repair_def tree_ex_def)
  have young: "\<not> shouldWither (Node (Some (tree_ex 10 20 100 False)) (Some 20)
          [Child (leaf_ex 0), Child (leaf_ex 1), Child (leaf_ex 15)])"
    by (simp add: leaf_ex_def eval_simps)
  have "wither (Node (Some (tree_ex 10 20 100 False)) (Some 20)
       [Child (leaf_ex 0), Child (leaf_ex 1), Child (leaf_ex 15)]) =
     Inr (False, Node (Some (tree_ex 10 20 100 False)) (Some 20) [Child (leaf_ex 15)])"
    by (subst wither.simps) (simp add: repair young loop childNum_def value_at_def)
  with w0 w1 w2 loop show ?thesis by simp
qed

subsection \<open>Disabled policy\<close>

lemma tracking_off_inactive: "tracking_off this \<Longrightarrow> \<not> tracking_active this"
  by (cases this) (auto simp: tracking_active_def split: option.splits)

lemma repair_step_inactive: "\<not> tracking_active this \<Longrightarrow> repair_step this v = this"
  by (simp add: repair_step_def genOlderThan_inactive split: option.splits)

lemma skew_repair_inactive: "\<not> tracking_active this \<Longrightarrow> skew_repair t this = this"
proof -
  assume off: "\<not> tracking_active this"
  have "foldl repair_step this vs = this" for vs
    by (induction vs) (simp_all add: repair_step_inactive off)
  then show ?thesis by (simp add: skew_repair_def)
qed

lemma rejuvenate_inactive: "\<not> tracking_active this \<Longrightarrow> rejuvenate this = this"
  by (auto simp: rejuvenate_def tracking_active_def js_prop_def split: option.splits)

lemma mergeAfter_inactive:
  "\<not> tracking_active this \<Longrightarrow>
   mergeAfter super_mergeAfter this node =
     (case super_mergeAfter this node of (result, vs) \<Rightarrow> (result, set_values vs this))"
  by (simp add: mergeAfter_def Let_def genOlderThan_inactive split: prod.splits)

lemma traverse_inactive:
  "\<not> tracking_active this \<Longrightarrow>
   traverse super_traverse this props =
     (case super_traverse of
        None \<Rightarrow> (None, this)
      | Some f \<Rightarrow> (case f this of (r, vs) \<Rightarrow> (Some r, set_values vs this)))"
  by (auto simp: traverse_def Let_def rejuvenate_inactive split: prod.splits option.splits)

lemma getUncachedRange_inactive:
  "\<not> tracking_active this \<Longrightarrow>
   getUncachedRange super_getUncachedRange this props =
     (case super_getUncachedRange of
        None \<Rightarrow> (None, this)
      | Some f \<Rightarrow> (case f this of (r, vs) \<Rightarrow> (Some r, set_values vs this)))"
  by (auto simp: getUncachedRange_def Let_def rejuvenate_inactive
      split: prod.splits option.splits)

lemma sweep_prune_slots:
  "(\<And>c. Child c \<in> set ss \<Longrightarrow> wither c = Inr (prune c)) \<Longrightarrow> sweep ss = Inr (prune_slots ss)"
proof (induction ss)
  case Nil
  show ?case by simp
next
  case (Cons s ss)
  then show ?case by (cases s) (auto split: prod.splits)
qed

lemma wither_prune: "tracking_off this \<Longrightarrow> wither this = Inr (prune this)"
proof (induction "size this" arbitrary: this rule: less_induct)
  case less
  obtain tr g vs where node: "this = Node tr g vs" by (cases this)
  with less.prems obtain t where t: "tr = Some t" by (auto split: option.splits)
  have "wither c = Inr (prune c)" if "Child c \<in> set vs" for c
  proof -
    have "size c < size this" using that node size_child [of c this] by simp
    moreover have "tracking_off c" using that less.prems node by fastforce
    ultimately show ?thesis using less.hyps by blast
  qed
  then have "sweep vs = Inr (prune_slots vs)" by (rule sweep_prune_slots)
  then have sw: "sweep (node_values this) = Inr (prune_slots vs)" using node by simp
  have off: "\<not> tracking_active this" using less.prems by (rule tracking_off_inactive)
  have nt: "node_tree this = Some t" using node t by simp
  have "wither this = Inr (prune_slots vs = [Null], set_values (prune_slots vs) this)"
    using off by (simp add: wither_unfold [OF nt] sw skew_repair_inactive shouldWither_inactive)
  then show ?case using node by (simp add: set_values_def Let_def)
qed

lemma restamp_slot_Null [simp]: "(restamp_slot f s = Null) = (s = Null)"
  by (cases s) simp_all

lemma prune_restamp:
  "prune (restamp f this) = map_prod id (restamp f) (prune this)"
  "prune_slots (map (restamp_slot f) ss) = map (restamp_slot f) (prune_slots ss)"
proof (induction this and ss rule: prune_prune_slots.induct)
  case (1 tr g vs)
  then show ?case by (auto simp: Let_def)
next
  case 2
  show ?case by simp
next
  case (3 c ss)
  then show ?case by (auto split: prod.splits)
qed auto

lemma tracking_off_restamp: "tracking_off (restamp f this) = tracking_off this"
proof (induction "size this" arbitrary: this rule: less_induct)
  case less
  obtain tr g vs where node: "this = Node tr g vs" by (cases this)
  have "(case restamp_slot f s of Child c \<Rightarrow> tracking_off c | _ \<Rightarrow> True) =
        (case s of Child c \<Rightarrow> tracking_off c | _ \<Rightarrow> True)" if "s \<in> set vs" for s
  proof (cases s)
    case (Child c)
    then have "size c < size this" using that node size_child [of c this] by simp
    then show ?thesis using less.hyps Child by simp
  qed simp_all
  then show ?case using node by auto
qed

text \<open>
  C6 (amended). In a subtree whose trees have \<^verbatim>\<open>lifeSpan\<close> absent or zero, no stamp is
  changed by \<^verbatim>\<open>rejuvenate\<close>, \<^verbatim>\<open>mergeAfter\<close>, \<^verbatim>\<open>traverse\<close>, \<^verbatim>\<open>getUncachedRange\<close> or
  \<^verbatim>\<open>wither\<close>: the first is the identity, the next three do what the base class does and
  nothing more, and \<^verbatim>\<open>wither()\<close> is the structural pruning, which clears no content,
  copies the stamps and gives the same result however the stamps are rewritten. The
  constructor leaves the stamp unset unless an explicit non-zero \<^verbatim>\<open>props._currGen\<close> is
  supplied.
\<close>

theorem disabled_policy:
  "tracking_off this \<Longrightarrow>
     rejuvenate this = this \<and>
     mergeAfter super_mergeAfter this node =
       (case super_mergeAfter this node of (result, vs) \<Rightarrow> (result, set_values vs this)) \<and>
     lastUpdateGen (snd (mergeAfter super_mergeAfter this node)) = lastUpdateGen this \<and>
     traverse super_traverse this props =
       (case super_traverse of
          None \<Rightarrow> (None, this)
        | Some f \<Rightarrow> (case f this of (r, vs) \<Rightarrow> (Some r, set_values vs this))) \<and>
     lastUpdateGen (snd (traverse super_traverse this props)) = lastUpdateGen this \<and>
     getUncachedRange super_getUncachedRange this props =
       (case super_getUncachedRange of
          None \<Rightarrow> (None, this)
        | Some f \<Rightarrow> (case f this of (r, vs) \<Rightarrow> (Some r, set_values vs this))) \<and>
     lastUpdateGen (snd (getUncachedRange super_getUncachedRange this props)) =
       lastUpdateGen this \<and>
     wither this = Inr (prune this) \<and>
     lastUpdateGen (snd (prune this)) = lastUpdateGen this \<and>
     wither (restamp f this) = Inr (map_prod id (restamp f) (prune this)) \<and>
     ((case cprops of None \<Rightarrow> True
       | Some p \<Rightarrow> props_currGen p = None \<or> props_currGen p = Some 0) \<longrightarrow>
      constructor cprops (node_tree this) vs0 = Inr (Node (node_tree this) None vs0))"
proof -
  assume off: "tracking_off this"
  then have inactive: "\<not> tracking_active this" by (rule tracking_off_inactive)
  have merge: "lastUpdateGen (snd (mergeAfter super_mergeAfter this node)) = lastUpdateGen this"
    by (simp add: mergeAfter_inactive [OF inactive] split: prod.splits)
  have trav: "lastUpdateGen (snd (traverse super_traverse this props)) = lastUpdateGen this"
    by (simp add: traverse_inactive [OF inactive] split: prod.splits option.splits)
  have unc: "lastUpdateGen (snd (getUncachedRange super_getUncachedRange this props)) =
      lastUpdateGen this"
    by (simp add: getUncachedRange_inactive [OF inactive] split: prod.splits option.splits)
  have stamp: "lastUpdateGen (snd (prune this)) = lastUpdateGen this"
    by (cases this) (simp add: Let_def)
  have "tracking_off (restamp f this)" using off by (simp add: tracking_off_restamp)
  then have indep: "wither (restamp f this) = Inr (map_prod id (restamp f) (prune this))"
    by (simp add: wither_prune prune_restamp)
  have ctor: "constructor cprops (node_tree this) vs0 = Inr (Node (node_tree this) None vs0)"
    if "case cprops of None \<Rightarrow> True
        | Some p \<Rightarrow> props_currGen p = None \<or> props_currGen p = Some 0"
    using that inactive
    by (auto simp: constructor_def tracking_active_def js_prop_def Let_def
        split: option.splits)
  show ?thesis
    using merge trav unc stamp indep ctor
    by (simp add: rejuvenate_inactive [OF inactive] mergeAfter_inactive [OF inactive]
        traverse_inactive [OF inactive] getUncachedRange_inactive [OF inactive]
        wither_prune [OF off])
qed

theorem disabled_policy_witness:
  "tracking_off node_off \<and>
   shouldWither (Node (Some (tree_off (Some 10))) (Some 0) []) \<and>
   wither node_off = Inr (False, Node (Some (tree_off None)) (Some 0)
      [Child (Node (Some (tree_off None)) (Some 2) [Plain (Some 40)])]) \<and>
   rejuvenate node_off = node_off"
proof -
  have off: "tracking_off node_off"
    by (simp add: node_off_def tree_off_def)
  have old: "shouldWither (Node (Some (tree_off (Some 10))) (Some 0) [])"
    by (simp add: tree_off_def eval_simps)
  have pruned: "prune node_off = (False, Node (Some (tree_off None)) (Some 0)
      [Child (Node (Some (tree_off None)) (Some 2) [Plain (Some 40)])])"
    by (simp add: node_off_def)
  from disabled_policy [OF off, where super_mergeAfter = "\<lambda>_ _. (False, [])" and node = None
      and super_traverse = "None :: (node \<Rightarrow> unit \<times> slot list) option" and props = None
      and super_getUncachedRange = "None :: (node \<Rightarrow> unit \<times> slot list) option"
      and f = id and cprops = None and ?vs0.0 = "[]"]
  have "wither node_off = Inr (prune node_off)" and "rejuvenate node_off = node_off"
    by simp_all
  with off old pruned show ?thesis by simp
qed

text \<open>
  The claim C6 as stated fails for the constructor: an explicit \<^verbatim>\<open>props._currGen\<close>
  seeds the stamp also when the \<^verbatim>\<open>lifeSpan\<close> of the tree is absent.
\<close>

theorem constructor_seeds_counterexample:
  "constructor (Some \<lparr>props_currGen = Some 7\<rparr>) (Some (tree_off None)) [] =
     Inr (Node (Some (tree_off None)) (Some 7) [])"
  by (simp add: constructor_def tree_off_def js_prop_def set_lastUpdateGen_def)

subsection \<open>Stamps move forward\<close>

lemma not_backward_refl [simp]: "not_backward t g g"
  by (simp add: not_backward_def split: option.splits)

lemma not_backward_trans:
  "not_backward t a b \<Longrightarrow> not_backward t b c \<Longrightarrow> not_backward t a c"
  by (auto simp: not_backward_def split: option.splits)

lemma genOlderThan_forward:
  assumes "truthy (genOlderThan this g)" "node_tree this = Some t"
  shows "\<exists>own new. lastUpdateGen this = Some own \<and> g = Some new \<and>
           spec_age t new < spec_age t own"
  using assms
  by (auto simp: genOlderThan_def js_gt_def js_le_def spec_age_def
      split: option.splits if_splits)

lemma repair_step_forward:
  "node_tree this = Some t \<Longrightarrow>
   not_backward t (lastUpdateGen this) (lastUpdateGen (repair_step this v))"
  by (auto simp: repair_step_def not_backward_def split: option.splits
      dest!: genOlderThan_forward)

lemma foldl_repair_forward:
  "node_tree this = Some t \<Longrightarrow>
   not_backward t (lastUpdateGen this) (lastUpdateGen (foldl repair_step this vs))"
proof (induction vs arbitrary: this)
  case Nil
  show ?case by simp
next
  case (Cons v vs)
  have "not_backward t (lastUpdateGen this) (lastUpdateGen (repair_step this v))"
    using Cons.prems by (rule repair_step_forward)
  moreover have "not_backward t (lastUpdateGen (repair_step this v))
      (lastUpdateGen (foldl repair_step (repair_step this v) vs))"
    using Cons.prems by (intro Cons.IH) simp
  ultimately show ?case by (auto intro: not_backward_trans)
qed

lemma skew_repair_forward:
  "node_tree this = Some t \<Longrightarrow>
   not_backward t (lastUpdateGen this) (lastUpdateGen (skew_repair t' this))"
  by (simp add: skew_repair_def foldl_repair_forward)

lemma wither_stamp:
  assumes "node_tree this = Some t" "wither this = Inr (b, this')"
  shows "lastUpdateGen this' = lastUpdateGen (skew_repair t this)"
  using assms(2) unfolding wither_unfold [OF assms(1)]
  by (auto simp: clear_def split: if_splits sum.splits)

lemma mergeAfter_forward:
  "node_tree this = Some t \<Longrightarrow>
   not_backward t (lastUpdateGen this)
     (lastUpdateGen (snd (mergeAfter super_mergeAfter this node)))"
  by (auto simp: mergeAfter_def Let_def not_backward_def
      split: prod.splits option.splits dest!: genOlderThan_forward)

lemma rejuvenate_forward:
  assumes "node_tree this = Some t" "in_cycle t (currGen t)"
    "\<And>g. lastUpdateGen this = Some g \<Longrightarrow> in_cycle t g"
  shows "not_backward t (lastUpdateGen this) (lastUpdateGen (rejuvenate this))"
  using assms
  by (auto simp: rejuvenate_def not_backward_def spec_age_def in_cycle_def
      split: option.splits)

lemma rejuvenate_idem: "rejuvenate (rejuvenate this) = rejuvenate this"
  by (auto simp: rejuvenate_def set_lastUpdateGen_def split: option.splits)

lemma traverse_forward:
  assumes "node_tree this = Some t" "in_cycle t (currGen t)"
    "\<And>g. lastUpdateGen this = Some g \<Longrightarrow> in_cycle t g"
  shows "not_backward t (lastUpdateGen this)
           (lastUpdateGen (snd (traverse super_traverse this props)))"
proof -
  have "not_backward t (lastUpdateGen (set_values vs this))
          (lastUpdateGen (rejuvenate (set_values vs this)))" for vs
    using assms by (intro rejuvenate_forward) simp_all
  moreover have "not_backward t (lastUpdateGen this) (lastUpdateGen (rejuvenate this))"
    using assms by (rule rejuvenate_forward)
  ultimately show ?thesis
    by (auto simp: traverse_def Let_def split: prod.splits option.splits)
qed

lemma getUncachedRange_eq_traverse: "getUncachedRange = traverse"
  by (intro ext) (simp add: getUncachedRange_def traverse_def)

text \<open>
  C7. No operation of the mixin moves the stamp of a node backward: the skew repair, and so
  \<^verbatim>\<open>wither()\<close>, and \<^verbatim>\<open>mergeAfter\<close> leave it or adopt a stamp of smaller age;
  \<^verbatim>\<open>rejuvenate\<close> is idempotent and, like \<^verbatim>\<open>traverse\<close> and \<^verbatim>\<open>getUncachedRange\<close> that call
  it, leaves the stamp or sets it to the current generation, of age 0, which is not a move
  backward for generations in the cyclic range. The constructor starts from an unset stamp
  and leaves it unset or seeds it with the current or the supplied generation.
\<close>

theorem stamp_never_backward:
  "node_tree this = Some t \<Longrightarrow>
     not_backward t (lastUpdateGen this) (lastUpdateGen (skew_repair t this)) \<and>
     (\<forall>b this'. wither this = Inr (b, this') \<longrightarrow>
        not_backward t (lastUpdateGen this) (lastUpdateGen this')) \<and>
     not_backward t (lastUpdateGen this)
       (lastUpdateGen (snd (mergeAfter super_mergeAfter this node))) \<and>
     rejuvenate (rejuvenate this) = rejuvenate this \<and>
     (in_cycle t (currGen t) \<and> (\<forall>g. lastUpdateGen this = Some g \<longrightarrow> in_cycle t g) \<longrightarrow>
        not_backward t (lastUpdateGen this) (lastUpdateGen (rejuvenate this)) \<and>
        not_backward t (lastUpdateGen this)
          (lastUpdateGen (snd (traverse super_traverse this props))) \<and>
        not_backward t (lastUpdateGen this)
          (lastUpdateGen (snd (getUncachedRange super_getUncachedRange this props)))) \<and>
     (\<forall>n. constructor cprops (Some t) vs0 = Inr n \<longrightarrow>
        lastUpdateGen n = None \<or> lastUpdateGen n = Some (currGen t) \<or>
        (\<exists>p. cprops = Some p \<and> lastUpdateGen n = props_currGen p))"
proof -
  assume t: "node_tree this = Some t"
  have repair: "not_backward t (lastUpdateGen this) (lastUpdateGen (skew_repair t this))"
    using t by (rule skew_repair_forward)
  have sweep: "not_backward t (lastUpdateGen this) (lastUpdateGen this')"
    if "wither this = Inr (b, this')" for b this'
    using wither_stamp [OF t that] repair by simp
  have merge: "not_backward t (lastUpdateGen this)
       (lastUpdateGen (snd (mergeAfter super_mergeAfter this node)))"
    using t by (rule mergeAfter_forward)
  have hooks: "not_backward t (lastUpdateGen this) (lastUpdateGen (rejuvenate this)) \<and>
        not_backward t (lastUpdateGen this)
          (lastUpdateGen (snd (traverse super_traverse this props))) \<and>
        not_backward t (lastUpdateGen this)
          (lastUpdateGen (snd (getUncachedRange super_getUncachedRange this props)))"
    if "in_cycle t (currGen t) \<and> (\<forall>g. lastUpdateGen this = Some g \<longrightarrow> in_cycle t g)"
    using that t
    by (simp add: rejuvenate_forward traverse_forward getUncachedRange_eq_traverse)
  have ctor: "lastUpdateGen n = None \<or> lastUpdateGen n = Some (currGen t) \<or>
        (\<exists>p. cprops = Some p \<and> lastUpdateGen n = props_currGen p)"
    if "constructor cprops (Some t) vs0 = Inr n" for n
    using that by (auto simp: constructor_def Let_def split: option.splits if_splits)
  show ?thesis
    using repair sweep merge hooks ctor by (simp add: rejuvenate_idem)
qed

theorem stamp_never_backward_witness:
  "node_tree node_skewed = Some (tree_ex 10 20 100 True) \<and>
   in_cycle (tree_ex 10 20 100 True) (currGen (tree_ex 10 20 100 True)) \<and>
   in_cycle (tree_ex 10 20 100 True) 12 \<and>
   lastUpdateGen (skew_repair (tree_ex 10 20 100 True) node_skewed) = Some 18 \<and>
   not_backward (tree_ex 10 20 100 True) (Some 12) (Some 18) \<and>
   \<not> not_backward (tree_ex 10 20 100 True) (Some 18) (Some 12) \<and>
   lastUpdateGen (rejuvenate node_skewed) = Some 20 \<and>
   not_backward (tree_ex 10 20 100 True) (Some 12) (Some 20)"
proof -
  have t: "node_tree node_skewed = Some (tree_ex 10 20 100 True)"
    by (simp add: node_skewed_def)
  have range: "in_cycle (tree_ex 10 20 100 True) (currGen (tree_ex 10 20 100 True)) \<and>
      (\<forall>g. lastUpdateGen node_skewed = Some g \<longrightarrow> in_cycle (tree_ex 10 20 100 True) g)"
    by (simp add: node_skewed_def in_cycle_def tree_ex_def)
  have repaired: "lastUpdateGen (skew_repair (tree_ex 10 20 100 True) node_skewed) = Some 18"
    by (simp add: node_skewed_def eval_simps)
  have rejuvenated: "lastUpdateGen (rejuvenate node_skewed) = Some 20"
    by (simp add: node_skewed_def rejuvenate_def tree_ex_def js_prop_def)
  have stamp: "lastUpdateGen node_skewed = Some 12"
    by (simp add: node_skewed_def)
  from stamp_never_backward [OF t, where super_mergeAfter = "\<lambda>_ _. (False, [])"
      and node = None and super_traverse = "None :: (node \<Rightarrow> unit \<times> slot list) option"
      and props = None
      and super_getUncachedRange = "None :: (node \<Rightarrow> unit \<times> slot list) option"
      and cprops = None and ?vs0.0 = "[]"] range
  have "not_backward (tree_ex 10 20 100 True) (Some 12) (Some 18)"
    and "not_backward (tree_ex 10 20 100 True) (Some 12) (Some 20)"
    by (simp_all add: repaired rejuvenated stamp)
  moreover have "\<not> not_backward (tree_ex 10 20 100 True) (Some 18) (Some 12)"
    by (simp add: not_backward_def spec_age_def tree_ex_def)
  ultimately show ?thesis
    using t range repaired rejuvenated stamp by (simp add: in_cycle_def)
qed

subsection \<open>The merge hook and the traversal hooks\<close>

lemma mergeAfter_stamp:
  "super_mergeAfter this node = (result, vs) \<Longrightarrow>
   lastUpdateGen (snd (mergeAfter super_mergeAfter this node)) =
     (let nodeGen = (case node of
                       None \<Rightarrow> lastUpdateGen this
                     | Some n \<Rightarrow> if truthy (js_prop (lastUpdateGen n)) then lastUpdateGen n
                                 else lastUpdateGen this)
      in if result \<and> genOlderThan this nodeGen = JBoolean True then nodeGen
         else lastUpdateGen this)"
  by (simp add: mergeAfter_def Let_def truthy_genOlderThan)

text \<open>
  C8 (amended). After a successful \<^verbatim>\<open>mergeAfter\<close> the stamp of the receiving node is the
  incoming stamp if \<^verbatim>\<open>_genOlderThan\<close> says that the receiver is older than it, and the
  receiver's own stamp otherwise (an incoming stamp of 0 is replaced by the receiver's own
  before the comparator is asked, which makes no difference for a receiver whose stamp is
  not negative). With tracking active this is the more recent of the two stamps whenever
  they are on the same side of the current generation. Merging a node with stamp 5 into a
  node with stamp 3 at the current generation 10 gives the stamp 5.
\<close>

theorem mergeAfter_adopts:
  "(super_mergeAfter this (Some n) = (True, vs) \<and> lastUpdateGen n = Some g \<and>
    (g \<noteq> 0 \<or> (\<forall>own. lastUpdateGen this = Some own \<longrightarrow> 0 \<le> own)) \<longrightarrow>
      lastUpdateGen (snd (mergeAfter super_mergeAfter this (Some n))) =
        (if genOlderThan this (Some g) = JBoolean True then Some g else lastUpdateGen this)) \<and>
   (super_mergeAfter this (Some n) = (True, vs) \<and> lastUpdateGen n = Some g \<and>
    node_tree this = Some t \<and> tracking_active this \<and> lastUpdateGen this = Some own \<and>
    (g \<noteq> 0 \<or> 0 \<le> own) \<and> same_side (currGen t) g own \<longrightarrow>
      lastUpdateGen (snd (mergeAfter super_mergeAfter this (Some n))) =
        Some (more_recent t own g)) \<and>
   lastUpdateGen (snd (mergeAfter merge_ok
       (Node (Some (tree_ex 10 10 100 nl)) (Some 3) vs3) (Some (Node tr5 (Some 5) vs5)))) =
     Some 5"
proof (intro conjI impI)
  show "lastUpdateGen (snd (mergeAfter super_mergeAfter this (Some n))) =
        (if genOlderThan this (Some g) = JBoolean True then Some g else lastUpdateGen this)"
    if "super_mergeAfter this (Some n) = (True, vs) \<and> lastUpdateGen n = Some g \<and>
        (g \<noteq> 0 \<or> (\<forall>own. lastUpdateGen this = Some own \<longrightarrow> 0 \<le> own))"
    using that mergeAfter_stamp [of super_mergeAfter this "Some n" True vs]
    by (auto simp: js_prop_def genOlderThan_def js_gt_def split: option.splits)
  show "lastUpdateGen (snd (mergeAfter super_mergeAfter this (Some n))) =
        Some (more_recent t own g)"
    if "super_mergeAfter this (Some n) = (True, vs) \<and> lastUpdateGen n = Some g \<and>
        node_tree this = Some t \<and> tracking_active this \<and> lastUpdateGen this = Some own \<and>
        (g \<noteq> 0 \<or> 0 \<le> own) \<and> same_side (currGen t) g own"
    using that mergeAfter_stamp [of super_mergeAfter this "Some n" True vs]
    by (auto simp: js_prop_def genOlderThan_def tracking_active_def same_side_def js_gt_def
        js_le_def more_recent_def spec_age_def split: option.splits)
  show "lastUpdateGen (snd (mergeAfter merge_ok
       (Node (Some (tree_ex 10 10 100 nl)) (Some 3) vs3) (Some (Node tr5 (Some 5) vs5)))) =
     Some 5"
    by (simp add: mergeAfter_def merge_ok_def Let_def genOlderThan_def tree_ex_def js_prop_def
        js_gt_def js_le_def set_values_def set_lastUpdateGen_def)
qed

theorem mergeAfter_adopts_witness:
  "merge_ok (Node (Some (tree_ex 10 5 100 False)) (Some 97) [])
       (Some (Node (Some (tree_ex 10 5 100 False)) (Some 99) [Null])) = (True, [Null]) \<and>
   tracking_active (Node (Some (tree_ex 10 5 100 False)) (Some 97) []) \<and>
   same_side (currGen (tree_ex 10 5 100 False)) 99 97 \<and>
   more_recent (tree_ex 10 5 100 False) 97 99 = 99 \<and>
   lastUpdateGen (snd (mergeAfter merge_ok (Node (Some (tree_ex 10 5 100 False)) (Some 97) [])
       (Some (Node (Some (tree_ex 10 5 100 False)) (Some 99) [Null])))) = Some 99"
  using mergeAfter_adopts [where super_mergeAfter = merge_ok
      and this = "Node (Some (tree_ex 10 5 100 False)) (Some 97) []"
      and n = "Node (Some (tree_ex 10 5 100 False)) (Some 99) [Null]"
      and vs = "[Null]" and g = 99 and t = "tree_ex 10 5 100 False" and own = 97
      and nl = False and ?vs3.0 = "[]" and ?tr5.0 = None and ?vs5.0 = "[]"]
  by (simp add: merge_ok_def tracking_active_def same_side_def tree_ex_def more_recent_def
      spec_age_def genOlderThan_def js_prop_def js_gt_def js_le_def)

text \<open>
  The claim C8 as stated fails when the stamps straddle the current generation: at the
  current generation 5 of 100 the receiver's stamp 98 has age 7, the incoming stamp 3 has
  age 2, and the merge keeps 98.
\<close>

theorem mergeAfter_straddle_counterexample:
  "lastUpdateGen (snd (mergeAfter merge_ok (Node (Some (tree_ex 10 5 100 False)) (Some 98) [])
       (Some (Node (Some (tree_ex 10 5 100 False)) (Some 3) [])))) = Some 98 \<and>
   spec_age (tree_ex 10 5 100 False) 98 = 7 \<and>
   spec_age (tree_ex 10 5 100 False) 3 = 2 \<and>
   more_recent (tree_ex 10 5 100 False) 98 3 = 3"
  by (simp add: mergeAfter_def merge_ok_def Let_def genOlderThan_def tree_ex_def js_prop_def
      js_gt_def js_le_def set_values_def set_lastUpdateGen_def more_recent_def spec_age_def)

text \<open>
  C10. When the incoming node is absent, or its stamp is unset or 0, \<^verbatim>\<open>mergeAfter\<close>
  leaves the stamp of the receiving node unchanged: the stamp compared is then the
  receiver's own, and the comparator, being strict, never says that a node is older than
  its own stamp.
\<close>

theorem mergeAfter_falsy_incoming:
  "(node = None \<or>
    (\<exists>n. node = Some n \<and> (lastUpdateGen n = None \<or> lastUpdateGen n = Some 0)) \<longrightarrow>
      lastUpdateGen (snd (mergeAfter super_mergeAfter this node)) = lastUpdateGen this) \<and>
   \<not> truthy (genOlderThan this (lastUpdateGen this)) \<and>
   genOlderThan this (lastUpdateGen this) \<noteq> JBoolean True"
proof (intro conjI impI)
  obtain result vs where base: "super_mergeAfter this node = (result, vs)"
    by (cases "super_mergeAfter this node")
  show "lastUpdateGen (snd (mergeAfter super_mergeAfter this node)) = lastUpdateGen this"
    if "node = None \<or>
        (\<exists>n. node = Some n \<and> (lastUpdateGen n = None \<or> lastUpdateGen n = Some 0))"
    using that genOlderThan_own [of this]
      mergeAfter_stamp [of super_mergeAfter this node result vs, OF base]
    by (auto simp: js_prop_def truthy_genOlderThan)
  show "\<not> truthy (genOlderThan this (lastUpdateGen this))"
    by (rule genOlderThan_own)
  show "genOlderThan this (lastUpdateGen this) \<noteq> JBoolean True"
    using genOlderThan_own [of this] by (simp add: truthy_genOlderThan)
qed

theorem mergeAfter_falsy_incoming_witness:
  "lastUpdateGen (Node None (Some 0) [Null]) = Some 0 \<and>
   lastUpdateGen (snd (mergeAfter merge_ok
       (Node (Some (tree_ex 10 20 100 False)) (Some 7) [])
       (Some (Node None (Some 0) [Null])))) = Some 7"
  using mergeAfter_falsy_incoming [where super_mergeAfter = merge_ok
      and this = "Node (Some (tree_ex 10 20 100 False)) (Some 7) []"
      and node = "Some (Node None (Some 0) [Null])"]
  by simp

text \<open>
  C9. A call of \<^verbatim>\<open>traverse\<close> or \<^verbatim>\<open>getUncachedRange\<close> whose \<^verbatim>\<open>props\<close> carry
  \<^verbatim>\<open>doNotWither\<close> leaves the stamp of the node unchanged. Otherwise, with generation
  tracking active, the stamp is the current generation of the tree on return. In both
  cases the result and the content are those of the base operation, which runs first.
\<close>

theorem traverse_rejuvenates:
  "((\<exists>p. props = Some p \<and> doNotWither p) \<longrightarrow>
      lastUpdateGen (snd (traverse super_traverse this props)) = lastUpdateGen this \<and>
      lastUpdateGen (snd (getUncachedRange super_getUncachedRange this props)) =
        lastUpdateGen this) \<and>
   (\<not> (\<exists>p. props = Some p \<and> doNotWither p) \<and> node_tree this = Some t \<and>
    tracking_active this \<longrightarrow>
      lastUpdateGen (snd (traverse super_traverse this props)) = Some (currGen t) \<and>
      lastUpdateGen (snd (getUncachedRange super_getUncachedRange this props)) =
        Some (currGen t)) \<and>
   fst (traverse super_traverse this props) =
     (case super_traverse of None \<Rightarrow> None | Some f \<Rightarrow> Some (fst (f this))) \<and>
   node_values (snd (traverse super_traverse this props)) =
     (case super_traverse of None \<Rightarrow> node_values this | Some f \<Rightarrow> snd (f this)) \<and>
   fst (getUncachedRange super_getUncachedRange this props) =
     (case super_getUncachedRange of None \<Rightarrow> None | Some f \<Rightarrow> Some (fst (f this))) \<and>
   node_values (snd (getUncachedRange super_getUncachedRange this props)) =
     (case super_getUncachedRange of None \<Rightarrow> node_values this | Some f \<Rightarrow> snd (f this))"
  by (auto simp: traverse_def getUncachedRange_def Let_def rejuvenate_def tracking_active_def
      js_prop_def set_values_def set_lastUpdateGen_def split: option.splits prod.splits)

theorem traverse_rejuvenates_witness:
  "lastUpdateGen (snd (traverse (Some (\<lambda>n. (True, Null # node_values n)))
       (Node (Some (tree_ex 10 20 100 False)) (Some 3) [])
       (Some \<lparr>doNotWither = True\<rparr>))) = Some 3 \<and>
   tracking_active (Node (Some (tree_ex 10 20 100 False)) (Some 3) []) \<and>
   lastUpdateGen (snd (getUncachedRange (Some (\<lambda>n. (True, Null # node_values n)))
       (Node (Some (tree_ex 10 20 100 False)) (Some 3) []) None)) = Some 20"
  using traverse_rejuvenates [where super_traverse = "Some (\<lambda>n. (True, Null # node_values n))"
      and super_getUncachedRange = "Some (\<lambda>n. (True, Null # node_values n))"
      and this = "Node (Some (tree_ex 10 20 100 False)) (Some 3) []"
      and props = "Some \<lparr>doNotWither = True\<rparr>" and t = "tree_ex 10 20 100 False"]
    traverse_rejuvenates [where super_traverse = "Some (\<lambda>n. (True, Null # node_values n))"
      and super_getUncachedRange = "Some (\<lambda>n. (True, Null # node_values n))"
      and this = "Node (Some (tree_ex 10 20 100 False)) (Some 3) []"
      and props = None and t = "tree_ex 10 20 100 False"]
  by (simp add: tracking_active_def tree_ex_def)

end
